theory Spec2Isabelle
  imports Main "HOL-Library.Sublist"
begin

section \<open>KRR 2.1.1: a shallow embedding of krr.py\<close>

text \<open>
  Python strings are sequences of Unicode code points, so a string is a list of natural
  numbers here (one number per code point, \<open>len\<close> is \<open>length\<close>). Python integers
  are \<open>int\<close>. Every operation of the source that can raise returns \<open>error + 'a\<close>.
\<close>

type_synonym codepoint = nat
type_synonym ustring = "codepoint list"

datatype error = IndexError | KeyError | ValueError

definition ascii :: "string \<Rightarrow> ustring" where
  \<comment> \<open>an ASCII literal of the source, read as code points\<close>
  "ascii s = map of_char s"

subsection \<open>The Python built-ins the module calls\<close>

definition py_ord :: "codepoint \<Rightarrow> int" where
  "py_ord c = int c"

definition py_chr :: "int \<Rightarrow> error + codepoint" where
  \<comment> \<open>\<open>chr(i)\<close> raises ValueError outside \<open>range(0x110000)\<close>\<close>
  "py_chr i = (if 0 \<le> i \<and> i < 0x110000 then Inr (nat i) else Inl ValueError)"

definition getitem :: "'a list \<Rightarrow> int \<Rightarrow> error + 'a" where
  \<comment> \<open>\<open>xs[i]\<close>: a negative index counts from the end, anything else out of range raises\<close>
  "getitem xs i =
     (if 0 \<le> i \<and> i < int (length xs) then Inr (xs ! nat i)
      else if i < 0 \<and> - int (length xs) \<le> i then Inr (xs ! nat (int (length xs) + i))
      else Inl IndexError)"

fun dict_enumerate :: "int \<Rightarrow> 'a list \<Rightarrow> ('a \<rightharpoonup> int) \<Rightarrow> ('a \<rightharpoonup> int)" where
  \<comment> \<open>\<open>{val: idx for idx, val in enumerate(xs)}\<close>: a later entry overwrites an earlier one\<close>
  "dict_enumerate idx [] m = m"
| "dict_enumerate idx (val # vals) m = dict_enumerate (idx + 1) vals (m(val \<mapsto> idx))"

definition lookup :: "('k \<rightharpoonup> 'v) \<Rightarrow> 'k \<Rightarrow> error + 'v" where
  \<comment> \<open>\<open>d[k]\<close>\<close>
  "lookup d k = (case d k of None \<Rightarrow> Inl KeyError | Some v \<Rightarrow> Inr v)"

definition sorted_reverse :: "('a \<Rightarrow> nat) \<Rightarrow> 'a list \<Rightarrow> 'a list" where
  \<comment> \<open>\<open>sorted(xs, key=f, reverse=True)\<close>: the list is reversed, sorted stably by
      ascending key, and reversed again, which keeps equal keys in their original order\<close>
  "sorted_reverse f xs = rev (sort_key f (rev xs))"

fun join :: "'a list \<Rightarrow> 'a list list \<Rightarrow> 'a list" where
  \<comment> \<open>\<open>sep.join(xs)\<close>\<close>
  "join sep [] = []"
| "join sep [x] = x"
| "join sep (x # y # ys) = x @ sep @ join sep (y # ys)"

definition lstrip :: "'a list \<Rightarrow> 'a list \<Rightarrow> 'a list" where
  \<comment> \<open>\<open>s.lstrip(chars)\<close>: drops every leading member of \<open>chars\<close>\<close>
  "lstrip chars s = dropWhile (\<lambda>c. c \<in> set chars) s"

definition rstrip :: "'a list \<Rightarrow> 'a list \<Rightarrow> 'a list" where
  \<comment> \<open>\<open>s.rstrip(chars)\<close>: drops every trailing member of \<open>chars\<close>\<close>
  "rstrip chars s = rev (dropWhile (\<lambda>c. c \<in> set chars) (rev s))"

definition strip :: "'a list \<Rightarrow> 'a list \<Rightarrow> 'a list" where
  \<comment> \<open>\<open>s.strip(chars)\<close>: both ends, however many members of \<open>chars\<close> stand there\<close>
  "strip chars s = rstrip chars (lstrip chars s)"

fun replace_from :: "'a list \<Rightarrow> 'a list \<Rightarrow> 'a list \<Rightarrow> 'a list" where
  "replace_from old new [] = []"
| "replace_from old new (x # xs) =
     (if old \<noteq> [] \<and> prefix old (x # xs)
      then new @ replace_from old new (drop (length old) (x # xs))
      else x # replace_from old new xs)"

definition replace :: "'a list \<Rightarrow> 'a list \<Rightarrow> 'a list \<Rightarrow> 'a list" where
  \<comment> \<open>\<open>s.replace(old, new)\<close>: non-overlapping occurrences from the left; an empty
      \<open>old\<close> matches before every character and at the end\<close>
  "replace old new s =
     (if old = [] then new @ concat (map (\<lambda>c. c # new) s) else replace_from old new s)"

fun split_from :: "'a list \<Rightarrow> 'a list \<Rightarrow> 'a list \<Rightarrow> 'a list list" where
  "split_from sep cur [] = [cur]"
| "split_from sep cur (x # xs) =
     (if sep \<noteq> [] \<and> prefix sep (x # xs)
      then cur # split_from sep [] (drop (length sep) (x # xs))
      else split_from sep (cur @ [x]) xs)"

definition split :: "'a list \<Rightarrow> 'a list \<Rightarrow> error + 'a list list" where
  \<comment> \<open>\<open>s.split(sep)\<close>: an empty separator raises ValueError\<close>
  "split s sep = (if sep = [] then Inl ValueError else Inr (split_from sep [] s))"

fun find_str :: "'a list \<Rightarrow> 'a list \<Rightarrow> nat option" where
  \<comment> \<open>index of the first occurrence of \<open>v\<close> in the string\<close>
  "find_str [] v = (if v = [] then Some 0 else None)"
| "find_str (x # xs) v =
     (if prefix v (x # xs) then Some 0 else map_option Suc (find_str xs v))"

definition contains :: "'a list \<Rightarrow> 'a list \<Rightarrow> bool" where
  \<comment> \<open>\<open>v in s\<close>\<close>
  "contains s v = (find_str s v \<noteq> None)"

definition partition_str :: "'a list \<Rightarrow> 'a list \<Rightarrow> error + ('a list \<times> 'a list \<times> 'a list)" where
  \<comment> \<open>\<open>s.partition(v)\<close>: split at the first occurrence; \<open>(s, '', '')\<close> when there is
      none; an empty \<open>v\<close> raises ValueError\<close>
  "partition_str s v =
     (if v = [] then Inl ValueError
      else case find_str s v of
             None \<Rightarrow> Inr (s, [], [])
           | Some i \<Rightarrow> Inr (take i s, v, drop (i + length v) s))"

subsection \<open>Configuration and constants\<close>

definition SEPARATOR :: ustring where
  "SEPARATOR = [0x5C]"

definition INITIALS :: "ustring list" where
  "INITIALS =
     [ascii ''g'', ascii ''g`'', ascii ''n'', ascii ''d'', ascii ''d`'', ascii ''l'',
      ascii ''m'', ascii ''b'', ascii ''b`'', ascii ''s'', ascii ''s`'', [],
      ascii ''j'', ascii ''j`'', ascii ''ch'', ascii ''k'', ascii ''t'', ascii ''p'',
      ascii ''h'']"

definition MEDIALS :: "ustring list" where
  \<comment> \<open>U+00E4, U+00E8, U+00F6 and U+00FC are the four letters outside ASCII\<close>
  "MEDIALS =
     [ascii ''a'', [0xE4], ascii ''ya'', ascii ''y'' @ [0xE4], ascii ''u'', [0xE8],
      ascii ''yu'', ascii ''y'' @ [0xE8], ascii ''o'', ascii ''wa'',
      ascii ''w'' @ [0xE4], [0xF6], ascii ''yo'', ascii ''oo'', [0xFC],
      ascii ''w'' @ [0xE8], ascii ''wi'', ascii ''yoo'', ascii ''e~'', ascii ''e~i'',
      ascii ''i'']"

definition FINALS :: "ustring list" where
  "FINALS =
     [[], ascii ''g'', ascii ''g`'', ascii ''gs'', ascii ''n'', ascii ''nj'', ascii ''nh'',
      ascii ''d'', ascii ''l'', ascii ''lg'', ascii ''lm'', ascii ''lb'', ascii ''ls'',
      ascii ''lt'', ascii ''lp'', ascii ''lh'', ascii ''m'', ascii ''b'', ascii ''bs'',
      ascii ''s'', ascii ''s`'', ascii ''ng~'', ascii ''j'', ascii ''ch'', ascii ''k'',
      ascii ''t'', ascii ''p'', ascii ''h'']"

definition INITIAL_MAP :: "ustring \<rightharpoonup> int" where
  "INITIAL_MAP = dict_enumerate 0 INITIALS Map.empty"

definition MEDIAL_MAP :: "ustring \<rightharpoonup> int" where
  "MEDIAL_MAP = dict_enumerate 0 MEDIALS Map.empty"

definition FINAL_MAP :: "ustring \<rightharpoonup> int" where
  "FINAL_MAP = dict_enumerate 0 FINALS Map.empty"

definition SORTED_MEDIALS :: "ustring list" where
  "SORTED_MEDIALS = sorted_reverse length MEDIALS"

subsection \<open>encode\<close>

fun encode_loop :: "ustring list \<Rightarrow> ustring \<Rightarrow> error + ustring list" where
  \<comment> \<open>the \<open>for char in text\<close> loop; \<open>result\<close> is the list being appended to\<close>
  "encode_loop result [] = Inr result"
| "encode_loop result (char # text) =
     (if 0xAC00 \<le> char \<and> char \<le> 0xD7A3 then
        (let code = py_ord char - 44032;
             onset = code div 588;
             nucleus = (code mod 588) div 28;
             coda = code mod 28
         in case getitem INITIALS onset of Inl e \<Rightarrow> Inl e | Inr ini \<Rightarrow>
           (case getitem MEDIALS nucleus of Inl e \<Rightarrow> Inl e | Inr med \<Rightarrow>
           (case getitem FINALS coda of Inl e \<Rightarrow> Inl e | Inr fin \<Rightarrow>
              encode_loop (result @ [ini @ med @ fin]) text)))
      else encode_loop (result @ [[char]]) text)"

definition encode :: "ustring \<Rightarrow> error + ustring" where
  "encode text =
     (case encode_loop [] text of
        Inl e \<Rightarrow> Inl e
      | Inr result \<Rightarrow> Inr (join SEPARATOR result))"

subsection \<open>decode\<close>

fun scan_vowels :: "ustring \<Rightarrow> ustring list \<Rightarrow> error + codepoint option" where
  \<comment> \<open>the \<open>for vowel in _SORTED_MEDIALS\<close> loop of one block: \<open>Some ch\<close> when the loop
      breaks with \<open>matched = True\<close> after appending \<open>ch\<close>, \<open>None\<close> when it runs out\<close>
  "scan_vowels block [] = Inr None"
| "scan_vowels block (vowel # vowels) =
     (if contains block vowel then
        (case partition_str block vowel of
           Inl e \<Rightarrow> Inl e
         | Inr (onset_str, nucleus_str, coda_str) \<Rightarrow>
             if INITIAL_MAP onset_str \<noteq> None \<and> FINAL_MAP coda_str \<noteq> None then
               (case lookup INITIAL_MAP onset_str of Inl e \<Rightarrow> Inl e | Inr onset \<Rightarrow>
               (case lookup MEDIAL_MAP nucleus_str of Inl e \<Rightarrow> Inl e | Inr nucleus \<Rightarrow>
               (case lookup FINAL_MAP coda_str of Inl e \<Rightarrow> Inl e | Inr coda \<Rightarrow>
               (case py_chr (44032 + onset * 588 + nucleus * 28 + coda) of
                  Inl e \<Rightarrow> Inl e
                | Inr ch \<Rightarrow> Inr (Some ch)))))
             else scan_vowels block vowels)
      else scan_vowels block vowels)"

fun decode_loop :: "ustring list \<Rightarrow> ustring list \<Rightarrow> error + ustring list" where
  \<comment> \<open>the \<open>for block in blocks\<close> loop\<close>
  "decode_loop result [] = Inr result"
| "decode_loop result (block # blocks) =
     (if block = [] then decode_loop result blocks
      else case scan_vowels block SORTED_MEDIALS of
             Inl e \<Rightarrow> Inl e
           | Inr (Some ch) \<Rightarrow> decode_loop (result @ [[ch]]) blocks
           | Inr None \<Rightarrow> decode_loop (result @ [block]) blocks)"

definition QUOTES :: ustring where
  \<comment> \<open>the argument of \<open>strip\<close>: the double and the single quote\<close>
  "QUOTES = [0x22, 0x27]"

definition decode :: "ustring \<Rightarrow> error + ustring" where
  "decode text0 =
     (let text1 = strip QUOTES text0;
          text2 = replace [0x20] (SEPARATOR @ [0x20] @ SEPARATOR) text1
      in case split text2 SEPARATOR of
           Inl e \<Rightarrow> Inl e
         | Inr blocks \<Rightarrow>
             (case decode_loop [] blocks of
                Inl e \<Rightarrow> Inl e
              | Inr result \<Rightarrow> Inr (join [] result)))"

subsection \<open>Notions used to state the properties\<close>

definition syllabic :: "codepoint \<Rightarrow> bool" where
  \<comment> \<open>the composed syllable range U+AC00 .. U+D7A3\<close>
  "syllabic c = (0xAC00 \<le> c \<and> c \<le> 0xD7A3)"

definition onset_idx :: "codepoint \<Rightarrow> nat" where
  "onset_idx c = (c - 0xAC00) div 588"

definition nucleus_idx :: "codepoint \<Rightarrow> nat" where
  "nucleus_idx c = ((c - 0xAC00) mod 588) div 28"

definition coda_idx :: "codepoint \<Rightarrow> nat" where
  "coda_idx c = (c - 0xAC00) mod 28"

definition spec_block :: "codepoint \<Rightarrow> ustring" where
  \<comment> \<open>the block of one input character as the specification words it\<close>
  "spec_block c =
     (if syllabic c
      then INITIALS ! onset_idx c @ MEDIALS ! nucleus_idx c @ FINALS ! coda_idx c
      else [c])"

fun interpose :: "'a list \<Rightarrow> 'a list list \<Rightarrow> 'a list" where
  \<comment> \<open>the blocks with one separator in front of every block but the first\<close>
  "interpose sep [] = []"
| "interpose sep (b # bs) = b @ concat (map (\<lambda>x. sep @ x) bs)"

definition syllable_code :: "nat \<Rightarrow> nat \<Rightarrow> nat \<Rightarrow> codepoint" where
  "syllable_code oi ni ci = 0xAC00 + oi * 588 + ni * 28 + ci"

definition candidate :: "ustring \<Rightarrow> ustring \<Rightarrow> bool" where
  \<comment> \<open>the token occurs in the block, and cutting the block at its first occurrence
      leaves an onset token in front and a coda token behind\<close>
  "candidate block v =
     (case find_str block v of
        None \<Rightarrow> False
      | Some i \<Rightarrow> take i block \<in> set INITIALS \<and> drop (i + length v) block \<in> set FINALS)"

definition table_index :: "'a list \<Rightarrow> 'a \<Rightarrow> nat" where
  \<comment> \<open>position of the first entry equal to \<open>v\<close>\<close>
  "table_index xs v = length (takeWhile (\<lambda>x. x \<noteq> v) xs)"

definition scan_before :: "ustring \<Rightarrow> ustring \<Rightarrow> bool" where
  \<comment> \<open>longer tokens first; among equally long ones the earlier entry of MEDIALS first\<close>
  "scan_before u v =
     (length v < length u \<or>
      (length u = length v \<and> table_index MEDIALS u < table_index MEDIALS v))"

definition raw_blocks :: "ustring \<Rightarrow> ustring list" where
  \<comment> \<open>the non-empty blocks that the loop of decode visits, for a text already stripped\<close>
  "raw_blocks t =
     filter (\<lambda>b. b \<noteq> [])
       (split_from SEPARATOR [] (replace [0x20] (SEPARATOR @ [0x20] @ SEPARATOR) t))"

definition blocks_of :: "ustring \<Rightarrow> ustring list" where
  "blocks_of text = raw_blocks (strip QUOTES text)"

definition block_output :: "ustring \<Rightarrow> ustring" where
  \<comment> \<open>what the loop of decode appends for one non-empty block\<close>
  "block_output block =
     (case scan_vowels block SORTED_MEDIALS of
        Inr (Some ch) \<Rightarrow> [ch]
      | _ \<Rightarrow> block)"

definition nucleus_letters :: "codepoint list" where
  \<comment> \<open>the characters that are a nucleus token on their own\<close>
  "nucleus_letters = concat (filter (\<lambda>v. length v = 1) MEDIALS)"

definition nucleus_initials :: "codepoint set" where
  \<comment> \<open>the characters a nucleus token can start with\<close>
  "nucleus_initials = hd ` set MEDIALS"

definition consonantal :: "ustring \<Rightarrow> bool" where
  "consonantal s = (set s \<inter> nucleus_initials = {})"

definition syllable_of :: "ustring \<Rightarrow> ustring \<Rightarrow> codepoint" where
  \<comment> \<open>the code point recomposed from the cut of the block at the first occurrence of \<open>v\<close>\<close>
  "syllable_of block v =
     (case find_str block v of
        None \<Rightarrow> 0
      | Some i \<Rightarrow> syllable_code (table_index INITIALS (take i block)) (table_index MEDIALS v)
                   (table_index FINALS (drop (i + length v) block)))"


definition reserved :: "codepoint set" where
  \<comment> \<open>space, the two quotes and the separator: no token contains any of them\<close>
  "reserved = {0x20, 0x22, 0x27, 0x5C}"


section \<open>Lemmas\<close>

subsection \<open>The string primitives\<close>

lemma replace_single:
  "replace [a] new s = concat (map (\<lambda>x. if x = a then new else [x]) s)"
proof -
  have "replace_from [a] new s = concat (map (\<lambda>x. if x = a then new else [x]) s)"
    by (induction s) auto
  then show ?thesis by (simp add: replace_def)
qed

lemma split_from_append_sep:
  "split_from [c] cur (xs @ c # ys) = split_from [c] cur xs @ split_from [c] [] ys"
  by (induction xs arbitrary: cur) auto

lemma split_from_no_sep:
  "c \<notin> set xs \<Longrightarrow> split_from [c] cur xs = [cur @ xs]"
  by (induction xs arbitrary: cur) auto

lemma split_from_sep_free:
  "c \<notin> set cur \<Longrightarrow> \<forall>b\<in>set (split_from [c] cur xs). c \<notin> set b"
proof (induction xs arbitrary: cur)
  case Nil then show ?case by simp
next
  case (Cons x xs)
  show ?case
  proof (cases "c = x")
    case True
    with Cons.prems Cons.IH[of "[]"] show ?thesis by simp
  next
    case False
    with Cons.prems Cons.IH[of "cur @ [x]"] show ?thesis by simp
  qed
qed

lemma join_Nil_concat: "join [] xs = concat xs"
  by (induction "[]::'a list" xs rule: join.induct) auto

lemma strip_id:
  "s = [] \<or> (hd s \<notin> set chars \<and> last s \<notin> set chars) \<Longrightarrow> strip chars s = s"
proof -
  assume a: "s = [] \<or> (hd s \<notin> set chars \<and> last s \<notin> set chars)"
  have l: "dropWhile (\<lambda>c. c \<in> set chars) s = s"
    using a by (cases s) auto
  have "dropWhile (\<lambda>c. c \<in> set chars) (rev s) = rev s"
    using a by (cases s rule: rev_cases) auto
  with l show ?thesis by (simp add: strip_def lstrip_def rstrip_def)
qed

lemma dict_enumerate_notin:
  "k \<notin> set xs \<Longrightarrow> dict_enumerate idx xs m k = m k"
  by (induction xs arbitrary: idx m) auto

lemma dict_enumerate_nth:
  "distinct xs \<Longrightarrow> i < length xs \<Longrightarrow> dict_enumerate idx xs m (xs ! i) = Some (idx + int i)"
proof (induction xs arbitrary: idx m i)
  case Nil then show ?case by simp
next
  case (Cons x xs)
  show ?case
  proof (cases i)
    case 0
    with Cons.prems show ?thesis by (simp add: dict_enumerate_notin)
  next
    case (Suc j)
    with Cons.prems have "dict_enumerate (idx + 1) xs (m(x \<mapsto> idx)) (xs ! j) = Some (idx + 1 + int j)"
      by (intro Cons.IH) auto
    with Suc show ?thesis by simp
  qed
qed

lemma dict_enumerate_Some_gen:
  "dict_enumerate idx xs m k = Some j \<Longrightarrow>
     m k = Some j \<or> (idx \<le> j \<and> j < idx + int (length xs) \<and> xs ! nat (j - idx) = k)"
proof (induction xs arbitrary: idx m)
  case Nil then show ?case by simp
next
  case (Cons x xs)
  from Cons.prems have "dict_enumerate (idx + 1) xs (m(x \<mapsto> idx)) k = Some j" by simp
  from Cons.IH[OF this] consider
      (old) "(m(x \<mapsto> idx)) k = Some j"
    | (new) "idx + 1 \<le> j" "j < idx + 1 + int (length xs)" "xs ! nat (j - (idx + 1)) = k"
    by blast
  then show ?case
  proof cases
    case old
    then show ?thesis by (auto split: if_splits)
  next
    case new
    have "nat (j - idx) = Suc (nat (j - (idx + 1)))" using new(1) by arith
    with new show ?thesis by simp
  qed
qed

lemma dict_enumerate_Some:
  "dict_enumerate idx xs Map.empty k = Some j \<Longrightarrow>
     idx \<le> j \<and> j < idx + int (length xs) \<and> xs ! nat (j - idx) = k"
  using dict_enumerate_Some_gen[of idx xs Map.empty k j] by simp

lemma dict_enumerate_dom:
  "dom (dict_enumerate idx xs m) = dom m \<union> set xs"
  by (induction xs arbitrary: idx m) auto

subsection \<open>The tables\<close>

lemma INITIALS_code: "INITIALS = [[103], [103, 96], [110], [100], [100, 96], [108], [109], [98], [98, 96], [115], [115, 96], [], [106], [106, 96], [99, 104], [107], [116], [112], [104]]"
  by (simp add: INITIALS_def ascii_def)
lemma MEDIALS_code: "MEDIALS = [[97], [228], [121, 97], [121, 228], [117], [232], [121, 117], [121, 232], [111], [119, 97], [119, 228], [246], [121, 111], [111, 111], [252], [119, 232], [119, 105], [121, 111, 111], [101, 126], [101, 126, 105], [105]]"
  by (simp add: MEDIALS_def ascii_def)
lemma FINALS_code: "FINALS = [[], [103], [103, 96], [103, 115], [110], [110, 106], [110, 104], [100], [108], [108, 103], [108, 109], [108, 98], [108, 115], [108, 116], [108, 112], [108, 104], [109], [98], [98, 115], [115], [115, 96], [110, 103, 126], [106], [99, 104], [107], [116], [112], [104]]"
  by (simp add: FINALS_def ascii_def)
lemma SORTED_MEDIALS_code: "SORTED_MEDIALS = [[121, 111, 111], [101, 126, 105], [121, 97], [121, 228], [121, 117], [121, 232], [119, 97], [119, 228], [121, 111], [111, 111], [119, 232], [119, 105], [101, 126], [97], [228], [117], [232], [111], [246], [252], [105]]"
  by (simp add: SORTED_MEDIALS_def sorted_reverse_def MEDIALS_code)

lemma nucleus_initials_code:
  "nucleus_initials = {97, 228, 121, 117, 232, 111, 119, 246, 252, 101, 105}"
  by (auto simp add: nucleus_initials_def MEDIALS_code)

lemma prefix_consonantal:
  "consonantal s \<Longrightarrow> c \<in> nucleus_initials \<Longrightarrow> prefix (c # v) s = False"
  by (cases s) (auto simp: consonantal_def)

lemma find_str_consonantal:
  "consonantal s \<Longrightarrow> c \<in> nucleus_initials \<Longrightarrow> find_str s (c # v) = None"
  by (induction s) (auto simp: consonantal_def)

lemma find_str_consonantal_prefix:
  "consonantal p \<Longrightarrow> c \<in> nucleus_initials \<Longrightarrow>
     find_str (p @ r) (c # v) = map_option (\<lambda>i. length p + i) (find_str r (c # v))"
proof (induction p)
  case Nil
  then show ?case by (cases "find_str r (c # v)") auto
next
  case (Cons a p)
  then show ?case by (cases "find_str r (c # v)") (auto simp: consonantal_def)
qed

lemma scan_syllable_all:
  assumes "consonantal p" "consonantal s" "INITIAL_MAP p = Some oi" "FINAL_MAP s = Some ci"
  shows "\<forall>m\<in>set MEDIALS. \<forall>ni. MEDIAL_MAP m = Some ni \<longrightarrow>
           scan_vowels (p @ m @ s) SORTED_MEDIALS =
           (case py_chr (44032 + oi * 588 + ni * 28 + ci) of
              Inl e \<Rightarrow> Inl e | Inr ch \<Rightarrow> Inr (Some ch))"
  using assms unfolding SORTED_MEDIALS_code MEDIALS_code
  by (simp add: contains_def partition_str_def lookup_def nucleus_initials_code
      prefix_consonantal find_str_consonantal find_str_consonantal_prefix)

lemma length_tables:
  "length INITIALS = 19" "length MEDIALS = 21" "length FINALS = 28"
  by (simp_all add: INITIALS_code MEDIALS_code FINALS_code)

lemma distinct_tables:
  "distinct INITIALS" "distinct MEDIALS" "distinct FINALS"
  by (simp_all add: INITIALS_code MEDIALS_code FINALS_code)

lemma set_SORTED_MEDIALS: "set SORTED_MEDIALS = set MEDIALS"
  by (simp add: SORTED_MEDIALS_def sorted_reverse_def)

lemma consonantal_INITIALS_all: "\<forall>p\<in>set INITIALS. consonantal p"
  by (simp add: INITIALS_code consonantal_def nucleus_initials_code)

lemma consonantal_INITIALS: "p \<in> set INITIALS \<Longrightarrow> consonantal p"
  using consonantal_INITIALS_all by blast

lemma consonantal_FINALS_all: "\<forall>s\<in>set FINALS. consonantal s"
  by (simp add: FINALS_code consonantal_def nucleus_initials_code)

lemma consonantal_FINALS: "s \<in> set FINALS \<Longrightarrow> consonantal s"
  using consonantal_FINALS_all by blast

lemma MEDIALS_nonempty: "v \<in> set MEDIALS \<Longrightarrow> v \<noteq> []"
proof -
  have "\<forall>v\<in>set MEDIALS. v \<noteq> []" by (simp add: MEDIALS_code)
  then show "v \<in> set MEDIALS \<Longrightarrow> v \<noteq> []" by blast
qed

lemma dom_maps:
  "dom INITIAL_MAP = set INITIALS" "dom MEDIAL_MAP = set MEDIALS" "dom FINAL_MAP = set FINALS"
  by (simp_all add: INITIAL_MAP_def MEDIAL_MAP_def FINAL_MAP_def dict_enumerate_dom)

lemma INITIAL_MAP_nth: "i < 19 \<Longrightarrow> INITIAL_MAP (INITIALS ! i) = Some (int i)"
  using dict_enumerate_nth[of INITIALS i 0 Map.empty]
  by (simp add: INITIAL_MAP_def distinct_tables length_tables)

lemma MEDIAL_MAP_nth: "i < 21 \<Longrightarrow> MEDIAL_MAP (MEDIALS ! i) = Some (int i)"
  using dict_enumerate_nth[of MEDIALS i 0 Map.empty]
  by (simp add: MEDIAL_MAP_def distinct_tables length_tables)

lemma FINAL_MAP_nth: "i < 28 \<Longrightarrow> FINAL_MAP (FINALS ! i) = Some (int i)"
  using dict_enumerate_nth[of FINALS i 0 Map.empty]
  by (simp add: FINAL_MAP_def distinct_tables length_tables)

lemma INITIAL_MAP_Some: "INITIAL_MAP p = Some j \<Longrightarrow> 0 \<le> j \<and> j < 19 \<and> INITIALS ! nat j = p"
  using dict_enumerate_Some[of 0 INITIALS p j] by (simp add: INITIAL_MAP_def length_tables)

lemma MEDIAL_MAP_Some: "MEDIAL_MAP v = Some j \<Longrightarrow> 0 \<le> j \<and> j < 21 \<and> MEDIALS ! nat j = v"
  using dict_enumerate_Some[of 0 MEDIALS v j] by (simp add: MEDIAL_MAP_def length_tables)

lemma FINAL_MAP_Some: "FINAL_MAP s = Some j \<Longrightarrow> 0 \<le> j \<and> j < 28 \<and> FINALS ! nat j = s"
  using dict_enumerate_Some[of 0 FINALS s j] by (simp add: FINAL_MAP_def length_tables)

subsection \<open>Index arithmetic\<close>

lemma index_bounds_nat:
  "syllabic c \<Longrightarrow> onset_idx c < 19 \<and> nucleus_idx c < 21 \<and> coda_idx c < 28"
  unfolding syllabic_def onset_idx_def nucleus_idx_def coda_idx_def by arith

lemma index_int:
  assumes "syllabic c"
  shows "(py_ord c - 44032) div 588 = int (onset_idx c)"
    and "((py_ord c - 44032) mod 588) div 28 = int (nucleus_idx c)"
    and "(py_ord c - 44032) mod 28 = int (coda_idx c)"
proof -
  have "py_ord c - 44032 = int (c - 0xAC00)"
    using assms by (simp add: py_ord_def syllabic_def)
  then show "(py_ord c - 44032) div 588 = int (onset_idx c)"
    and "((py_ord c - 44032) mod 588) div 28 = int (nucleus_idx c)"
    and "(py_ord c - 44032) mod 28 = int (coda_idx c)"
    by (simp_all add: onset_idx_def nucleus_idx_def coda_idx_def zdiv_int zmod_int)
qed

lemma recompose:
  assumes "syllabic c"
  shows "syllable_code (onset_idx c) (nucleus_idx c) (coda_idx c) = c"
proof -
  define k where "k = c - 0xAC00"
  have c: "c = 0xAC00 + k" using assms by (simp add: k_def syllabic_def)
  have "(k mod 588) mod 28 = k mod 28"
    by (rule mod_mod_cancel) simp
  then have a: "(k mod 588) div 28 * 28 + k mod 28 = k mod 588"
    using div_mult_mod_eq[of "k mod 588" 28] by simp
  have b: "k div 588 * 588 + k mod 588 = k"
    by (rule div_mult_mod_eq)
  have "k div 588 * 588 + (k mod 588) div 28 * 28 + k mod 28 =
        k div 588 * 588 + ((k mod 588) div 28 * 28 + k mod 28)"
    by (simp only: add.assoc)
  also have "\<dots> = k" by (simp only: a b)
  finally have "k div 588 * 588 + (k mod 588) div 28 * 28 + k mod 28 = k" .
  then show ?thesis
    unfolding syllable_code_def onset_idx_def nucleus_idx_def coda_idx_def k_def[symmetric]
    using c by simp
qed

lemma syllable_code_range:
  "oi < 19 \<Longrightarrow> ni < 21 \<Longrightarrow> ci < 28 \<Longrightarrow> syllabic (syllable_code oi ni ci)"
  unfolding syllabic_def syllable_code_def by arith

lemma py_chr_syllable:
  "0 \<le> oi \<Longrightarrow> oi < 19 \<Longrightarrow> 0 \<le> ni \<Longrightarrow> ni < 21 \<Longrightarrow> 0 \<le> ci \<Longrightarrow> ci < 28 \<Longrightarrow>
     py_chr (44032 + oi * 588 + ni * 28 + ci) = Inr (syllable_code (nat oi) (nat ni) (nat ci))"
proof -
  assume a: "0 \<le> oi" "oi < 19" "0 \<le> ni" "ni < 21" "0 \<le> ci" "ci < 28"
  then have "nat (44032 + oi * 588 + ni * 28 + ci) = syllable_code (nat oi) (nat ni) (nat ci)"
    unfolding syllable_code_def by (simp add: nat_add_distrib nat_mult_distrib)
  moreover have "0 \<le> 44032 + oi * 588 + ni * 28 + ci" "44032 + oi * 588 + ni * 28 + ci < 0x110000"
    using a by simp_all
  ultimately show ?thesis by (simp add: py_chr_def)
qed

subsection \<open>The two loops as list functions\<close>

lemma table_index_nth:
  "distinct xs \<Longrightarrow> i < length xs \<Longrightarrow> table_index xs (xs ! i) = i"
  unfolding table_index_def
proof (induction xs arbitrary: i)
  case Nil then show ?case by simp
next
  case (Cons x xs)
  then show ?case by (cases i) auto
qed

lemma table_index_mem:
  "v \<in> set xs \<Longrightarrow> table_index xs v < length xs \<and> xs ! table_index xs v = v"
  unfolding table_index_def by (induction xs) auto

lemma getitem_nat: "i < length xs \<Longrightarrow> getitem xs (int i) = Inr (xs ! i)"
  by (simp add: getitem_def)

lemma encode_loop_eq: "encode_loop result t = Inr (result @ map spec_block t)"
proof (induction t arbitrary: result)
  case Nil then show ?case by simp
next
  case (Cons c t)
  show ?case
  proof (cases "syllabic c")
    case True
    note b = index_bounds_nat[OF True]
    have r: "0xAC00 \<le> c \<and> c \<le> 0xD7A3" using True by (simp add: syllabic_def)
    show ?thesis
      using r True b Cons.IH
      by (simp add: Let_def index_int[OF True] getitem_nat length_tables spec_block_def)
  next
    case False
    then have r: "\<not> (0xAC00 \<le> c \<and> c \<le> 0xD7A3)" by (simp add: syllabic_def)
    show ?thesis using r False Cons.IH by (auto simp add: spec_block_def)
  qed
qed

lemma join_interpose: "join sep bs = interpose sep bs"
  by (induction sep bs rule: join.induct) auto

lemma encode_eq: "encode text = Inr (join SEPARATOR (map spec_block text))"
  by (simp add: encode_def encode_loop_eq)

lemma map_index:
  "INITIAL_MAP p = Some j \<Longrightarrow> 0 \<le> j \<and> j < 19 \<and> nat j = table_index INITIALS p"
  "MEDIAL_MAP v = Some j \<Longrightarrow> 0 \<le> j \<and> j < 21 \<and> nat j = table_index MEDIALS v"
  "FINAL_MAP s = Some j \<Longrightarrow> 0 \<le> j \<and> j < 28 \<and> nat j = table_index FINALS s"
  using INITIAL_MAP_Some[of p j] MEDIAL_MAP_Some[of v j] FINAL_MAP_Some[of s j]
    table_index_nth[of INITIALS "nat j"] table_index_nth[of MEDIALS "nat j"]
    table_index_nth[of FINALS "nat j"]
  by (auto simp: distinct_tables length_tables)

lemma scan_step:
  assumes "v \<in> set MEDIALS"
  shows "scan_vowels b (v # vs) =
           (if candidate b v then Inr (Some (syllable_of b v)) else scan_vowels b vs)"
proof (cases "find_str b v")
  case None
  then show ?thesis by (simp add: contains_def candidate_def)
next
  case (Some i)
  have ne: "v \<noteq> []" using assms by (rule MEDIALS_nonempty)
  let ?p = "take i b" and ?s = "drop (i + length v) b"
  show ?thesis
  proof (cases "candidate b v")
    case False
    then have "\<not> (?p \<in> dom INITIAL_MAP \<and> ?s \<in> dom FINAL_MAP)"
      using Some by (simp add: candidate_def dom_maps)
    then have "INITIAL_MAP ?p = None \<or> FINAL_MAP ?s = None"
      by (auto simp: dom_def)
    then show ?thesis using Some ne False
      by (auto simp add: contains_def partition_str_def)
  next
    case True
    then have "?p \<in> dom INITIAL_MAP" "?s \<in> dom FINAL_MAP" "v \<in> dom MEDIAL_MAP"
      using Some assms by (simp_all add: candidate_def dom_maps)
    then obtain oi ni ci where m: "INITIAL_MAP ?p = Some oi" "MEDIAL_MAP v = Some ni"
        "FINAL_MAP ?s = Some ci"
      by blast
    note i = map_index(1)[OF m(1)] map_index(2)[OF m(2)] map_index(3)[OF m(3)]
    have "py_chr (44032 + oi * 588 + ni * 28 + ci) = Inr (syllable_of b v)"
      using i Some py_chr_syllable[of oi ni ci] by (simp add: syllable_of_def)
    then show ?thesis using Some ne True m
      by (simp add: contains_def partition_str_def lookup_def)
  qed
qed

lemma scan_vowels_find:
  "set vs \<subseteq> set MEDIALS \<Longrightarrow>
     scan_vowels b vs =
       (case List.find (candidate b) vs of
          None \<Rightarrow> Inr None
        | Some v \<Rightarrow> Inr (Some (syllable_of b v)))"
proof (induction vs)
  case Nil then show ?case by simp
next
  case (Cons v vs)
  then have "v \<in> set MEDIALS" "set vs \<subseteq> set MEDIALS" by simp_all
  then show ?case using Cons.IH by (simp add: scan_step del: scan_vowels.simps)
qed

lemma block_output_find:
  "block_output b =
     (case List.find (candidate b) SORTED_MEDIALS of
        None \<Rightarrow> b
      | Some v \<Rightarrow> [syllable_of b v])"
  by (simp add: block_output_def scan_vowels_find set_SORTED_MEDIALS split: option.splits)

lemma decode_loop_eq:
  "decode_loop result blocks =
     Inr (result @ map block_output (filter (\<lambda>b. b \<noteq> []) blocks))"
proof (induction blocks arbitrary: result)
  case Nil then show ?case by simp
next
  case (Cons b blocks)
  show ?case
    using Cons.IH
    by (simp add: block_output_def scan_vowels_find set_SORTED_MEDIALS split: option.splits)
qed

lemma split_SEPARATOR: "split t SEPARATOR = Inr (split_from SEPARATOR [] t)"
  by (simp add: split_def SEPARATOR_def)

lemma decode_eq: "decode text = Inr (concat (map block_output (blocks_of text)))"
  by (simp add: decode_def Let_def split_SEPARATOR decode_loop_eq join_Nil_concat
      blocks_of_def raw_blocks_def)

subsection \<open>Blocks of an encoded text\<close>

lemma replace_space:
  "replace [0x20] [0x5C, 0x20, 0x5C] t =
     concat (map (\<lambda>x. if x = 0x20 then [0x5C, 0x20, 0x5C] else [x]) t)"
  by (rule replace_single)

lemma raw_blocks_eq:
  "raw_blocks t = filter (\<lambda>b. b \<noteq> [])
     (split_from [0x5C] []
        (concat (map (\<lambda>x. if x = 0x20 then [0x5C, 0x20, 0x5C] else [x]) t)))"
  by (simp add: raw_blocks_def SEPARATOR_def replace_space)

lemma raw_blocks_append_sep: "raw_blocks (a @ SEPARATOR @ b) = raw_blocks a @ raw_blocks b"
  by (simp add: raw_blocks_eq SEPARATOR_def split_from_append_sep)

lemma raw_blocks_append_space:
  "raw_blocks (a @ [0x20] @ b) = raw_blocks a @ [[0x20]] @ raw_blocks b"
proof -
  let ?r = "\<lambda>t. concat (map (\<lambda>x. if x = 0x20 then [0x5C, 0x20, 0x5C] else [x]) (t::ustring))"
  have "split_from [0x5C] [] (?r a @ 0x5C # ([0x20] @ 0x5C # ?r b)) =
        split_from [0x5C] [] (?r a) @ split_from [0x5C] [] ([0x20] @ 0x5C # ?r b)"
    by (rule split_from_append_sep)
  also have "split_from [0x5C] [] ([0x20::nat] @ 0x5C # ?r b) =
        split_from [0x5C] [] [0x20] @ split_from [0x5C] [] (?r b)"
    by (rule split_from_append_sep)
  finally show ?thesis
    by (simp add: raw_blocks_eq)
qed

lemma raw_blocks_Nil: "raw_blocks [] = []"
  by (simp add: raw_blocks_eq)

lemma raw_blocks_join: "raw_blocks (join SEPARATOR bs) = concat (map raw_blocks bs)"
proof (induction SEPARATOR bs rule: join.induct)
  case 1 then show ?case by (simp add: raw_blocks_Nil)
next
  case (2 x) then show ?case by simp
next
  case (3 x y ys)
  then show ?case by (simp add: raw_blocks_append_sep)
qed

lemma raw_blocks_plain:
  assumes "t \<noteq> []" "0x20 \<notin> set t" "0x5C \<notin> set t"
  shows "raw_blocks t = [t]"
proof -
  have "concat (map (\<lambda>x. if x = 0x20 then [0x5C, 0x20, 0x5C] else [x]) t) = t"
    using assms(2) by (induction t) auto
  then show ?thesis
    using assms(1,3) by (simp add: raw_blocks_eq split_from_no_sep)
qed

lemma raw_blocks_space: "raw_blocks [0x20] = [[0x20]]"
  by (simp add: raw_blocks_eq)

lemma tokens_unreserved:
  "\<forall>t\<in>set INITIALS. set t \<inter> reserved = {}"
  "\<forall>t\<in>set MEDIALS. set t \<inter> reserved = {}"
  "\<forall>t\<in>set FINALS. set t \<inter> reserved = {}"
  by (simp_all add: INITIALS_code MEDIALS_code FINALS_code reserved_def)

lemma spec_block_syllabic:
  assumes "syllabic c"
  shows "set (spec_block c) \<inter> reserved = {}" and "spec_block c \<noteq> []"
    and "block_output (spec_block c) = [c]"
proof -
  note b = index_bounds_nat[OF assms]
  let ?p = "INITIALS ! onset_idx c" and ?m = "MEDIALS ! nucleus_idx c"
    and ?s = "FINALS ! coda_idx c"
  have mem: "?p \<in> set INITIALS" "?m \<in> set MEDIALS" "?s \<in> set FINALS"
    using b by (simp_all add: length_tables)
  have sb: "spec_block c = ?p @ ?m @ ?s" using assms by (simp add: spec_block_def)
  show "set (spec_block c) \<inter> reserved = {}"
    using mem tokens_unreserved unfolding sb by auto
  show "spec_block c \<noteq> []"
    using MEDIALS_nonempty[OF mem(2)] unfolding sb by simp
  have "scan_vowels (?p @ ?m @ ?s) SORTED_MEDIALS =
          (case py_chr (44032 + int (onset_idx c) * 588 + int (nucleus_idx c) * 28
                 + int (coda_idx c)) of Inl e \<Rightarrow> Inl e | Inr ch \<Rightarrow> Inr (Some ch))"
    using scan_syllable_all[of ?p ?s "int (onset_idx c)" "int (coda_idx c)"] mem b
      consonantal_INITIALS consonantal_FINALS
    by (simp add: INITIAL_MAP_nth MEDIAL_MAP_nth FINAL_MAP_nth)
  also have "py_chr (44032 + int (onset_idx c) * 588 + int (nucleus_idx c) * 28
                 + int (coda_idx c)) = Inr c"
    using py_chr_syllable[of "int (onset_idx c)" "int (nucleus_idx c)" "int (coda_idx c)"] b
    by (simp add: recompose[OF assms])
  finally show "block_output (spec_block c) = [c]"
    by (simp add: block_output_def sb)
qed

lemma nucleus_letters_code: "nucleus_letters = [97, 228, 117, 232, 111, 246, 252, 105]"
  by (simp add: nucleus_letters_def MEDIALS_code)

lemma find_str_single:
  "v \<noteq> [] \<Longrightarrow> find_str [c] v = (if v = [c] then Some 0 else None)"
  by (cases v) auto

lemma block_output_single:
  assumes "c \<notin> set nucleus_letters"
  shows "block_output [c] = [c]"
proof -
  have "\<not> candidate [c] v" if v: "v \<in> set MEDIALS" for v
  proof
    assume "candidate [c] v"
    then have "v = [c]"
      using MEDIALS_nonempty[OF v]
      by (auto simp: candidate_def find_str_single simp del: find_str.simps split: if_splits)
    then have "c \<in> set nucleus_letters" using v by (auto simp: nucleus_letters_def)
    with assms show False by simp
  qed
  then have "List.find (candidate [c]) SORTED_MEDIALS = None"
    by (simp add: find_None_iff set_SORTED_MEDIALS)
  then show ?thesis by (simp add: block_output_find)
qed

lemma roundtrip_char:
  assumes "c \<noteq> 0x5C" "c \<notin> set nucleus_letters"
  shows "concat (map block_output (raw_blocks (spec_block c))) = [c]"
proof (cases "syllabic c")
  case True
  note s = spec_block_syllabic[OF True]
  have "raw_blocks (spec_block c) = [spec_block c]"
    using s(1,2) by (intro raw_blocks_plain) (auto simp: reserved_def)
  then show ?thesis using s(3) by simp
next
  case False
  then have sb: "spec_block c = [c]" by (simp add: spec_block_def)
  show ?thesis
  proof (cases "c = 0x20")
    case True
    have "block_output [0x20] = [0x20]"
      by (rule block_output_single) (simp add: nucleus_letters_code)
    then show ?thesis
      using sb unfolding True by (simp add: raw_blocks_space)
  next
    case False
    then have "raw_blocks [c] = [[c]]" using assms(1) by (intro raw_blocks_plain) auto
    then show ?thesis using block_output_single[OF assms(2)] by (simp add: sb)
  qed
qed

lemma hd_join:
  "bs \<noteq> [] \<Longrightarrow> hd bs \<noteq> [] \<Longrightarrow> hd (join sep bs) = hd (hd bs)"
  by (induction sep bs rule: join.induct) auto

lemma join_nonempty:
  "bs \<noteq> [] \<Longrightarrow> last bs \<noteq> [] \<Longrightarrow> join sep bs \<noteq> []"
  by (induction sep bs rule: join.induct) auto

lemma last_join:
  "bs \<noteq> [] \<Longrightarrow> last bs \<noteq> [] \<Longrightarrow> last (join sep bs) = last (last bs)"
proof (induction sep bs rule: join.induct)
  case (3 sep x y ys)
  then have "join sep (y # ys) \<noteq> []" by (intro join_nonempty) auto
  with 3 show ?case by simp
qed auto

lemma spec_block_ends:
  assumes "c \<notin> set QUOTES"
  shows "spec_block c \<noteq> []" "hd (spec_block c) \<notin> set QUOTES" "last (spec_block c) \<notin> set QUOTES"
proof -
  show ne: "spec_block c \<noteq> []"
    using spec_block_syllabic(2)[of c] by (cases "syllabic c") (simp_all add: spec_block_def)
  have "set (spec_block c) \<inter> set QUOTES = {}"
  proof (cases "syllabic c")
    case True
    then show ?thesis using spec_block_syllabic(1)[OF True] by (auto simp: reserved_def QUOTES_def)
  next
    case False
    then show ?thesis using assms by (simp add: spec_block_def)
  qed
  then show "hd (spec_block c) \<notin> set QUOTES" "last (spec_block c) \<notin> set QUOTES"
    using ne hd_in_set[OF ne] last_in_set[OF ne] by blast+
qed

lemma roundtrip_general:
  assumes ok: "\<forall>c\<in>set s. c \<noteq> 0x5C \<and> c \<notin> set nucleus_letters"
    and ends: "s \<noteq> [] \<longrightarrow> hd s \<notin> set QUOTES \<and> last s \<notin> set QUOTES"
  shows "decode (join SEPARATOR (map spec_block s)) = Inr s"
proof -
  let ?e = "join SEPARATOR (map spec_block s)"
  have st: "strip QUOTES ?e = ?e"
  proof (cases "s = []")
    case True then show ?thesis by (simp add: strip_id)
  next
    case False
    with ends have q: "hd s \<notin> set QUOTES" "last s \<notin> set QUOTES" by simp_all
    have "hd ?e = hd (spec_block (hd s))"
      using False spec_block_ends(1)[OF q(1)] by (simp add: hd_join hd_map)
    moreover have "last ?e = last (spec_block (last s))"
      using False spec_block_ends(1)[OF q(2)] by (simp add: last_join last_map)
    ultimately show ?thesis
      using spec_block_ends(2)[OF q(1)] spec_block_ends(3)[OF q(2)] by (intro strip_id) simp
  qed
  have "concat (map block_output (concat (map raw_blocks (map spec_block t)))) = t"
    if "\<forall>c\<in>set t. c \<noteq> 0x5C \<and> c \<notin> set nucleus_letters" for t
    using that by (induction t) (simp_all add: roundtrip_char)
  from this[OF ok] show ?thesis
    by (simp add: decode_eq blocks_of_def st raw_blocks_join)
qed

subsection \<open>Evaluation on concrete inputs\<close>

lemmas tables_code = INITIALS_code MEDIALS_code FINALS_code SORTED_MEDIALS_code

lemmas encode_eval = encode_eq spec_block_def syllabic_def onset_idx_def nucleus_idx_def
  coda_idx_def SEPARATOR_def

lemmas decode_eval = decode_eq blocks_of_def raw_blocks_eq strip_def lstrip_def rstrip_def
  QUOTES_def block_output_find candidate_def syllable_of_def syllable_code_def table_index_def

subsection \<open>First occurrence, scan order and the accepted token\<close>

lemma find_str_Some:
  "find_str b v = Some i \<Longrightarrow>
     b = take i b @ v @ drop (i + length v) b \<and> (\<forall>j<i. \<not> prefix v (drop j b))"
proof (induction b arbitrary: i)
  case Nil
  then show ?case by (simp split: if_splits)
next
  case (Cons x b)
  show ?case
  proof (cases "prefix v (x # b)")
    case True
    with Cons.prems have "i = 0" by simp
    with True show ?thesis by (auto simp: prefix_def)
  next
    case False
    with Cons.prems obtain k where k: "find_str b v = Some k" "i = Suc k" by auto
    from Cons.IH[OF k(1)] have ih: "b = take k b @ v @ drop (k + length v) b"
      "\<forall>j<k. \<not> prefix v (drop j b)" by simp_all
    have "\<not> prefix v (drop j (x # b))" if "j < Suc k" for j
      using that False ih(2) by (cases j) auto
    then show ?thesis using ih(1) k(2) by simp
  qed
qed

lemma find_first_sorted:
  "sorted_wrt R xs \<Longrightarrow> List.find P xs = Some v \<Longrightarrow> u \<in> set xs \<Longrightarrow> P u \<Longrightarrow> u = v \<or> R v u"
  by (induction xs) (auto split: if_splits)

lemma sorted_SORTED_MEDIALS: "sorted_wrt scan_before SORTED_MEDIALS"
proof -
  have "sorted_wrt (\<lambda>a b. snd b < snd a \<or> (snd a = snd b \<and> fst a < fst b))
          (map (\<lambda>v. (table_index MEDIALS v, length v)) SORTED_MEDIALS)"
    unfolding list.map_comp[symmetric, of "\<lambda>i. (i, length i)"]
    by (simp add: table_index_def tables_code)
  then show ?thesis
    by (simp add: sorted_wrt_map scan_before_def[abs_def])
qed

lemma candidate_syllable:
  assumes "candidate b v" "v \<in> set MEDIALS"
  shows "\<exists>i oi ni ci. find_str b v = Some i \<and>
           oi < 19 \<and> INITIALS ! oi = take i b \<and>
           ni < 21 \<and> MEDIALS ! ni = v \<and>
           ci < 28 \<and> FINALS ! ci = drop (i + length v) b \<and>
           syllable_of b v = 0xAC00 + oi * 588 + ni * 28 + ci"
proof -
  from assms(1) obtain i where i: "find_str b v = Some i" "take i b \<in> set INITIALS"
      "drop (i + length v) b \<in> set FINALS"
    by (auto simp: candidate_def split: option.splits)
  note t = table_index_mem[OF i(2)] table_index_mem[OF assms(2)] table_index_mem[OF i(3)]
  show ?thesis
    using i(1) t
    by (intro exI[of _ i] exI[of _ "table_index INITIALS (take i b)"]
        exI[of _ "table_index MEDIALS v"]
        exI[of _ "table_index FINALS (drop (i + length v) b)"])
      (simp add: syllable_of_def syllable_code_def length_tables)
qed

lemma decode_loop_step:
  "block \<noteq> [] \<Longrightarrow>
     decode_loop result (block # blocks) =
       decode_loop (result @ [block_output block]) blocks"
  by (simp add: decode_loop_eq)

lemma raw_blocks_nonempty: "[] \<notin> set (raw_blocks t)"
  by (simp add: raw_blocks_def)

lemma block_output_passthrough:
  "\<forall>v\<in>set MEDIALS. \<not> candidate b v \<Longrightarrow> block_output b = b"
proof -
  assume "\<forall>v\<in>set MEDIALS. \<not> candidate b v"
  then have "List.find (candidate b) SORTED_MEDIALS = None"
    by (simp add: find_None_iff set_SORTED_MEDIALS)
  then show ?thesis by (simp add: block_output_find)
qed

lemma strip_around:
  assumes "c \<notin> set cs"
  shows "strip cs (u @ c # v) = lstrip cs u @ c # rstrip cs v"
proof -
  have "lstrip cs (u @ c # v) = lstrip cs u @ c # v"
    using assms by (simp add: lstrip_def dropWhile_append3)
  moreover have "rstrip cs (w @ c # v) = w @ c # rstrip cs v" for w
    using assms by (simp add: rstrip_def dropWhile_append3)
  ultimately show ?thesis by (simp add: strip_def)
qed

subsection \<open>Stripping, index ranges and separator-free output\<close>

lemma strip_decomp:
  "\<exists>l r. t = l @ strip cs t @ r \<and> set l \<subseteq> set cs \<and> set r \<subseteq> set cs"
proof -
  let ?P = "\<lambda>c. c \<in> set cs"
  let ?m = "dropWhile ?P t"
  have 1: "t = takeWhile ?P t @ ?m" by simp
  have "rev ?m = takeWhile ?P (rev ?m) @ dropWhile ?P (rev ?m)" by simp
  then have "?m = rev (dropWhile ?P (rev ?m)) @ rev (takeWhile ?P (rev ?m))"
    by (metis rev_append rev_rev_ident)
  then have 2: "?m = strip cs t @ rev (takeWhile ?P (rev ?m))"
    by (simp add: strip_def lstrip_def rstrip_def)
  have "t = takeWhile ?P t @ strip cs t @ rev (takeWhile ?P (rev ?m))"
    using 1 2 by metis
  moreover have "set (takeWhile ?P t) \<subseteq> set cs"
    by (auto dest: set_takeWhileD)
  moreover have "set (rev (takeWhile ?P (rev ?m))) \<subseteq> set cs"
    by (auto dest: set_takeWhileD)
  ultimately show ?thesis by blast
qed

lemma strip_ends:
  "strip cs t = [] \<or> (hd (strip cs t) \<notin> set cs \<and> last (strip cs t) \<notin> set cs)"
proof (cases "strip cs t = []")
  case True then show ?thesis by simp
next
  case False
  let ?P = "\<lambda>c. c \<in> set cs"
  let ?m = "dropWhile ?P t"
  let ?d = "dropWhile ?P (rev ?m)"
  have s: "strip cs t = rev ?d" by (simp add: strip_def lstrip_def rstrip_def)
  with False have d: "?d \<noteq> []" by simp
  then have "\<not> ?P (hd ?d)" by (rule hd_dropWhile)
  then have l: "last (strip cs t) \<notin> set cs" using d by (simp add: s last_rev)
  have m: "?m \<noteq> []"
  proof
    assume "?m = []"
    then have "?d = []" by (simp only: rev.simps dropWhile.simps)
    with d show False by contradiction
  qed
  then have hm: "\<not> ?P (hd ?m)" by (rule hd_dropWhile)
  have "rev ?m = takeWhile ?P (rev ?m) @ ?d" by simp
  then have "?m = rev ?d @ rev (takeWhile ?P (rev ?m))"
    by (metis rev_append rev_rev_ident)
  then have "hd ?m = hd (rev ?d)" using d by (metis hd_append2 rev_is_Nil_conv)
  with hm have "hd (strip cs t) \<notin> set cs" by (simp add: s)
  with l show ?thesis by simp
qed

lemma strip_idem: "strip cs (strip cs t) = strip cs t"
  using strip_ends[of cs t] by (intro strip_id) simp

lemma getitem_tables:
  assumes "syllabic c"
  shows "getitem INITIALS ((py_ord c - 44032) div 588) = Inr (INITIALS ! onset_idx c)"
    and "getitem MEDIALS (((py_ord c - 44032) mod 588) div 28) = Inr (MEDIALS ! nucleus_idx c)"
    and "getitem FINALS ((py_ord c - 44032) mod 28) = Inr (FINALS ! coda_idx c)"
  using index_bounds_nat[OF assms]
  by (simp_all add: index_int[OF assms] getitem_nat length_tables)

lemma candidate_syllabic:
  assumes "candidate b v" "v \<in> set MEDIALS"
  shows "syllabic (syllable_of b v)"
proof -
  from candidate_syllable[OF assms] obtain oi ni ci where
    "oi < 19" "ni < 21" "ci < 28" "syllable_of b v = 0xAC00 + oi * 588 + ni * 28 + ci"
    by blast
  then show ?thesis by (simp add: syllabic_def)
qed

lemma block_output_sep_free:
  assumes "0x5C \<notin> set b"
  shows "0x5C \<notin> set (block_output b)"
proof (cases "List.find (candidate b) SORTED_MEDIALS")
  case None
  then show ?thesis using assms by (simp add: block_output_find)
next
  case (Some v)
  then have "candidate b v" "v \<in> set MEDIALS"
    using set_SORTED_MEDIALS by (auto simp: find_Some_iff)
  then have "syllabic (syllable_of b v)" by (rule candidate_syllabic)
  then show ?thesis using Some by (auto simp: block_output_find syllabic_def)
qed

lemma blocks_of_sep_free: "\<forall>b\<in>set (blocks_of t). 0x5C \<notin> set b"
  using split_from_sep_free[of "0x5C::nat" "[]"
      "replace [0x20] [0x5C, 0x20, 0x5C] (strip QUOTES t)"]
  by (simp add: blocks_of_def raw_blocks_def SEPARATOR_def)

section \<open>The claims\<close>

text \<open>
  C1. For every string all of whose characters are syllabic (U+AC00 .. U+D7A3), encode
  succeeds and decode of its result gives the string back.
\<close>

theorem roundtrip_syllabic:
  assumes "\<forall>c\<in>set x. syllabic c"
  shows "\<exists>r. encode x = Inr r \<and> decode r = Inr x"
proof -
  have "\<forall>c\<in>set x. c \<noteq> 0x5C \<and> c \<notin> set nucleus_letters"
    using assms by (auto simp: syllabic_def nucleus_letters_code)
  moreover have "x \<noteq> [] \<longrightarrow> hd x \<notin> set QUOTES \<and> last x \<notin> set QUOTES"
  proof
    assume ne: "x \<noteq> []"
    then have "syllabic (hd x)" "syllabic (last x)" using assms by simp_all
    then show "hd x \<notin> set QUOTES \<and> last x \<notin> set QUOTES"
      by (auto simp: syllabic_def QUOTES_def)
  qed
  ultimately have "decode (join SEPARATOR (map spec_block x)) = Inr x"
    by (rule roundtrip_general)
  then show ?thesis by (simp add: encode_eq)
qed

theorem roundtrip_syllabic_witness:
  "syllabic 0xAD6D \<and> syllabic 0xBC25 \<and>
   (\<exists>r. encode [0xAD6D, 0xBC25] = Inr r \<and> decode r = Inr [0xAD6D, 0xBC25])"
proof -
  have h: "\<forall>c\<in>set [0xAD6D, 0xBC25]. syllabic c" by (simp add: syllabic_def)
  from roundtrip_syllabic[OF h] show ?thesis by (simp add: syllabic_def)
qed

text \<open>
  C2 as stated fails: a passthrough character that is itself a nucleus token (here \<open>a\<close>)
  comes back as a syllable, and a quote at either end of the text is stripped by decode.
\<close>

theorem roundtrip_counterexample:
  "encode [0x61] = Inr [0x61] \<and> decode [0x61] = Inr [0xC544] \<and>
   encode [0x22] = Inr [0x22] \<and> decode [0x22] = Inr []"
  by (simp add: encode_eval decode_eval tables_code)

text \<open>
  C2, amended. For every string that contains neither the separator nor one of the eight
  characters that are a nucleus token on their own, and that neither begins nor ends with
  a quote character, encode succeeds and decode of its result gives the string back.
  Syllabic characters, spaces, quotes inside the text and every other passthrough
  character are allowed.
\<close>

theorem roundtrip_passthrough:
  assumes "\<forall>c\<in>set s. c \<noteq> 0x5C \<and> c \<notin> set nucleus_letters"
    and "s \<noteq> [] \<longrightarrow> hd s \<notin> set QUOTES \<and> last s \<notin> set QUOTES"
  shows "\<exists>r. encode s = Inr r \<and> decode r = Inr s"
proof -
  have "decode (join SEPARATOR (map spec_block s)) = Inr s"
    using assms by (rule roundtrip_general)
  then show ?thesis by (simp add: encode_eq)
qed

theorem roundtrip_passthrough_witness:
  "encode [0xC548, 0x22, 0x20, 0x7A, 0x21, 0xB155] =
     Inr [0x61, 0x6E, 0x5C, 0x22, 0x5C, 0x20, 0x5C, 0x7A, 0x5C, 0x21, 0x5C,
          0x6E, 0x79, 0x75, 0x6E, 0x67, 0x7E] \<and>
   (\<exists>r. encode [0xC548, 0x22, 0x20, 0x7A, 0x21, 0xB155] = Inr r \<and>
        decode r = Inr [0xC548, 0x22, 0x20, 0x7A, 0x21, 0xB155])"
proof -
  let ?s = "[0xC548, 0x22, 0x20, 0x7A, 0x21, 0xB155] :: ustring"
  have h1: "\<forall>c\<in>set ?s. c \<noteq> 0x5C \<and> c \<notin> set nucleus_letters"
    by (simp add: nucleus_letters_code)
  have h2: "?s \<noteq> [] \<longrightarrow> hd ?s \<notin> set QUOTES \<and> last ?s \<notin> set QUOTES"
    by (simp add: QUOTES_def)
  have "encode ?s = Inr [0x61, 0x6E, 0x5C, 0x22, 0x5C, 0x20, 0x5C, 0x7A, 0x5C, 0x21, 0x5C,
          0x6E, 0x79, 0x75, 0x6E, 0x67, 0x7E]"
    by (simp add: encode_eval tables_code)
  with roundtrip_passthrough[OF h1 h2] show ?thesis by simp
qed

text \<open>
  C3. encode never fails, and its result is the per-character blocks (the three table
  entries picked by the truncating division for a syllabic character, the character itself
  otherwise) with exactly one separator in front of every block but the first.
\<close>

theorem encode_blocks:
  "encode t = Inr (interpose SEPARATOR (map spec_block t))"
  by (simp add: encode_eq join_interpose)

theorem encode_blocks_witness:
  "encode [0xC548, 0x61, 0x21] = Inr [0x61, 0x6E, 0x5C, 0x61, 0x5C, 0x21]"
  using encode_blocks[of "[0xC548, 0x61, 0x21]"]
  by (simp add: spec_block_def syllabic_def onset_idx_def nucleus_idx_def coda_idx_def
      SEPARATOR_def tables_code)

text \<open>
  C4. The scan list is MEDIALS ordered by descending length, ties in table order. For a
  non-empty block, the step of the decode loop takes the first token of that list whose
  first occurrence in the block has an onset token in front and a coda token behind, and
  appends the character 0xAC00 + onset index * 588 + nucleus index * 28 + coda index;
  no token with such a cut is longer than the accepted one. When no token has such a cut
  the block itself is appended.
\<close>

theorem decode_block_greedy:
  assumes "block \<noteq> []"
  shows "sorted_wrt scan_before SORTED_MEDIALS \<and> set SORTED_MEDIALS = set MEDIALS \<and>
    (case List.find (candidate block) SORTED_MEDIALS of
       None \<Rightarrow> decode_loop result (block # blocks) = decode_loop (result @ [block]) blocks
     | Some v \<Rightarrow>
        (\<exists>i oi ni ci.
           find_str block v = Some i \<and>
           block = take i block @ v @ drop (i + length v) block \<and>
           (\<forall>j<i. \<not> prefix v (drop j block)) \<and>
           oi < 19 \<and> INITIALS ! oi = take i block \<and>
           ni < 21 \<and> MEDIALS ! ni = v \<and>
           ci < 28 \<and> FINALS ! ci = drop (i + length v) block \<and>
           decode_loop result (block # blocks) =
             decode_loop (result @ [[0xAC00 + oi * 588 + ni * 28 + ci]]) blocks \<and>
           (\<forall>u\<in>set MEDIALS. candidate block u \<longrightarrow> length u \<le> length v)))"
proof (intro conjI)
  show "sorted_wrt scan_before SORTED_MEDIALS" by (rule sorted_SORTED_MEDIALS)
  show "set SORTED_MEDIALS = set MEDIALS" by (rule set_SORTED_MEDIALS)
  show "case List.find (candidate block) SORTED_MEDIALS of
       None \<Rightarrow> decode_loop result (block # blocks) = decode_loop (result @ [block]) blocks
     | Some v \<Rightarrow>
        (\<exists>i oi ni ci.
           find_str block v = Some i \<and>
           block = take i block @ v @ drop (i + length v) block \<and>
           (\<forall>j<i. \<not> prefix v (drop j block)) \<and>
           oi < 19 \<and> INITIALS ! oi = take i block \<and>
           ni < 21 \<and> MEDIALS ! ni = v \<and>
           ci < 28 \<and> FINALS ! ci = drop (i + length v) block \<and>
           decode_loop result (block # blocks) =
             decode_loop (result @ [[0xAC00 + oi * 588 + ni * 28 + ci]]) blocks \<and>
           (\<forall>u\<in>set MEDIALS. candidate block u \<longrightarrow> length u \<le> length v))"
  proof (cases "List.find (candidate block) SORTED_MEDIALS")
    case None
    then show ?thesis using assms
      by (simp add: decode_loop_step block_output_find del: decode_loop.simps)
  next
    case (Some v)
    then have cv: "candidate block v" and vm: "v \<in> set MEDIALS"
      using set_SORTED_MEDIALS by (auto simp: find_Some_iff)
    from candidate_syllable[OF cv vm] obtain i oi ni ci where s:
      "find_str block v = Some i" "oi < 19" "INITIALS ! oi = take i block"
      "ni < 21" "MEDIALS ! ni = v" "ci < 28" "FINALS ! ci = drop (i + length v) block"
      "syllable_of block v = 0xAC00 + oi * 588 + ni * 28 + ci"
      by blast
    note f = find_str_Some[OF s(1)]
    have longest: "\<forall>u\<in>set MEDIALS. candidate block u \<longrightarrow> length u \<le> length v"
    proof (intro ballI impI)
      fix u assume "u \<in> set MEDIALS" "candidate block u"
      then have "u = v \<or> scan_before v u"
        using find_first_sorted[OF sorted_SORTED_MEDIALS Some, of u]
        by (simp add: set_SORTED_MEDIALS)
      then show "length u \<le> length v" by (auto simp: scan_before_def)
    qed
    have "decode_loop result (block # blocks) =
             decode_loop (result @ [[0xAC00 + oi * 588 + ni * 28 + ci]]) blocks"
      using assms Some s(8)
      by (simp add: decode_loop_step block_output_find del: decode_loop.simps)
    with s f longest show ?thesis
      unfolding Some option.case by blast
  qed
qed

theorem decode_block_greedy_witness:
  "[0x67, 0x77, 0x69] \<noteq> ([] :: ustring) \<and>
   List.find (candidate [0x67, 0x77, 0x69]) SORTED_MEDIALS = Some [0x77, 0x69] \<and>
   decode_loop [] [[0x67, 0x77, 0x69]] = Inr [[0xADC0]]"
proof -
  let ?b = "[0x67, 0x77, 0x69] :: ustring"
  have h: "?b \<noteq> []" by simp
  have f: "List.find (candidate ?b) SORTED_MEDIALS = Some [0x77, 0x69]"
    by (simp add: candidate_def tables_code)
  have i: "find_str ?b [0x77, 0x69] = Some 1" by simp
  from decode_block_greedy[OF h, of "[]" "[]"] obtain i oi ni ci where s:
    "find_str ?b [0x77, 0x69] = Some i"
    "oi < 19" "INITIALS ! oi = take i ?b" "ni < 21" "MEDIALS ! ni = [0x77, 0x69]"
    "ci < 28" "FINALS ! ci = drop (i + length [0x77, 0x69 :: nat]) ?b"
    "decode_loop [] [?b] = decode_loop ([] @ [[0xAC00 + oi * 588 + ni * 28 + ci]]) []"
    unfolding f option.case by blast
  from s(1) i have i1: "i = 1" by simp
  have "INITIALS ! oi = INITIALS ! 0" using s(3) i1 by (simp add: tables_code)
  then have oi: "oi = 0"
    using s(2) by (simp add: nth_eq_iff_index_eq[OF distinct_tables(1)] length_tables)
  have "MEDIALS ! ni = MEDIALS ! 16" using s(5) by (simp add: tables_code)
  then have ni: "ni = 16"
    using s(4) by (simp add: nth_eq_iff_index_eq[OF distinct_tables(2)] length_tables)
  have "FINALS ! ci = FINALS ! 0" using s(7) i1 by (simp add: tables_code)
  then have ci: "ci = 0"
    using s(6) by (simp add: nth_eq_iff_index_eq[OF distinct_tables(3)] length_tables)
  from s(8) have "decode_loop [] [?b] = Inr [[0xADC0]]"
    unfolding oi ni ci by simp
  with h f show ?thesis by simp
qed

text \<open>
  C5. decode returns a result for every input: the outputs of the non-empty blocks in
  order. No empty block is visited, the scan of a block never fails, and a block in which
  no nucleus token has a valid cut is output unchanged.
\<close>

theorem decode_total:
  "decode t = Inr (concat (map block_output (blocks_of t))) \<and>
   [] \<notin> set (blocks_of t) \<and>
   (\<forall>b. \<exists>r. scan_vowels b SORTED_MEDIALS = Inr r) \<and>
   (\<forall>b. (\<forall>v\<in>set MEDIALS. \<not> candidate b v) \<longrightarrow> block_output b = b)"
  using block_output_passthrough
  by (simp add: decode_eq blocks_of_def raw_blocks_nonempty scan_vowels_find
      set_SORTED_MEDIALS split: option.split)

theorem decode_total_witness:
  "blocks_of [0x7A, 0x7A, 0x5C, 0x5C, 0x67, 0x61, 0x20] = [[0x7A, 0x7A], [0x67, 0x61], [0x20]] \<and>
   decode [0x7A, 0x7A, 0x5C, 0x5C, 0x67, 0x61, 0x20] = Inr [0x7A, 0x7A, 0xAC00, 0x20]"
proof -
  let ?t = "[0x7A, 0x7A, 0x5C, 0x5C, 0x67, 0x61, 0x20] :: ustring"
  have b: "blocks_of ?t = [[0x7A, 0x7A], [0x67, 0x61], [0x20]]"
    by (simp add: blocks_of_def raw_blocks_eq strip_def lstrip_def rstrip_def QUOTES_def)
  have n: "\<forall>v\<in>set MEDIALS. \<not> candidate [0x7A, 0x7A] v"
    "\<forall>v\<in>set MEDIALS. \<not> candidate [0x20] v"
    by (simp_all add: candidate_def tables_code)
  have g: "block_output [0x67, 0x61] = [0xAC00]"
    by (simp add: block_output_find candidate_def syllable_of_def syllable_code_def
        table_index_def tables_code)
  from decode_total[of ?t] have d: "decode ?t = Inr (concat (map block_output (blocks_of ?t)))"
    and p: "\<And>b. (\<forall>v\<in>set MEDIALS. \<not> candidate b v) \<Longrightarrow> block_output b = b"
    by blast+
  from d b g p[OF n(1)] p[OF n(2)] show ?thesis by simp
qed

text \<open>
  C6 as stated fails in its second half: decode turns the block \<open>a\<close> into U+C544.
\<close>

theorem passthrough_example_counterexample:
  "encode [0x61, 0x21] = Inr [0x61, 0x5C, 0x21] \<and>
   decode [0x61, 0x5C, 0x21] \<noteq> Inr [0x61, 0x21]"
  by (simp add: encode_eval decode_eval tables_code)

text \<open>
  C6, amended. encode of \<open>a!\<close> is \<open>a\<close>, the separator, \<open>!\<close>; decode of that
  result is U+C544 followed by \<open>!\<close>, because the block \<open>a\<close> is the nucleus token
  \<open>a\<close> between the empty onset and the empty coda.
\<close>

theorem passthrough_example:
  "encode [0x61, 0x21] = Inr ([0x61] @ SEPARATOR @ [0x21]) \<and>
   decode ([0x61] @ SEPARATOR @ [0x21]) = Inr [0xC544, 0x21]"
  by (simp add: encode_eval decode_eval tables_code)

text \<open>
  C7 as stated fails: a space is a block boundary, but it is also kept as a block of its
  own, so the space-delimited input has one block more and decodes to a different text.
\<close>

theorem space_delimiter_counterexample:
  "decode [0x67, 0x61, 0x20, 0x6E, 0x61] = Inr [0xAC00, 0x20, 0xB098] \<and>
   decode [0x67, 0x61, 0x5C, 0x6E, 0x61] = Inr [0xAC00, 0xB098] \<and>
   blocks_of [0x67, 0x61, 0x20, 0x6E, 0x61] \<noteq> blocks_of [0x67, 0x61, 0x5C, 0x6E, 0x61]"
  by (simp add: decode_eval tables_code)

text \<open>
  C7, amended. A space between two parts of the input ends the block before it and
  starts the block after it exactly as a separator there does, and in addition the space
  itself is visited as a one-character block and output unchanged: the blocks and the
  result for the space-delimited input are those for the separator-delimited input with
  the space inserted at the boundary.
\<close>

theorem space_delimiter:
  "blocks_of (u @ [0x20] @ v) =
     raw_blocks (lstrip QUOTES u) @ [[0x20]] @ raw_blocks (rstrip QUOTES v) \<and>
   blocks_of (u @ SEPARATOR @ v) =
     raw_blocks (lstrip QUOTES u) @ raw_blocks (rstrip QUOTES v) \<and>
   decode (u @ [0x20] @ v) =
     Inr (concat (map block_output (raw_blocks (lstrip QUOTES u))) @ [0x20] @
          concat (map block_output (raw_blocks (rstrip QUOTES v)))) \<and>
   decode (u @ SEPARATOR @ v) =
     Inr (concat (map block_output (raw_blocks (lstrip QUOTES u))) @
          concat (map block_output (raw_blocks (rstrip QUOTES v))))"
proof -
  have sp: "blocks_of (u @ 0x20 # v) =
     raw_blocks (lstrip QUOTES u) @ [[0x20]] @ raw_blocks (rstrip QUOTES v)"
    using strip_around[of "0x20" QUOTES u v] raw_blocks_append_space
    by (simp add: blocks_of_def QUOTES_def)
  have se: "blocks_of (u @ SEPARATOR @ v) =
     raw_blocks (lstrip QUOTES u) @ raw_blocks (rstrip QUOTES v)"
    using strip_around[of "0x5C" QUOTES u v]
      raw_blocks_append_sep[of "lstrip QUOTES u" "rstrip QUOTES v"]
    by (simp add: blocks_of_def QUOTES_def SEPARATOR_def)
  have "block_output [0x20] = [0x20]"
    by (rule block_output_single) (simp add: nucleus_letters_code)
  then show ?thesis by (simp add: decode_eq sp se)
qed

theorem space_delimiter_witness:
  "decode ([0x67, 0x61] @ [0x20] @ [0x6E, 0x61]) = Inr ([0xAC00] @ [0x20] @ [0xB098]) \<and>
   decode ([0x67, 0x61] @ SEPARATOR @ [0x6E, 0x61]) = Inr ([0xAC00] @ [0xB098])"
proof -
  have "concat (map block_output (raw_blocks (lstrip QUOTES [0x67, 0x61]))) = [0xAC00]"
    "concat (map block_output (raw_blocks (rstrip QUOTES [0x6E, 0x61]))) = [0xB098]"
    by (simp_all add: raw_blocks_eq lstrip_def rstrip_def QUOTES_def block_output_find
        candidate_def syllable_of_def syllable_code_def table_index_def tables_code)
  with space_delimiter[of "[0x67, 0x61]" "[0x6E, 0x61]"] show ?thesis by simp
qed

text \<open>
  C8 as stated fails: strip removes every quote at either end, not one layer. Here two
  leading and two trailing quotes go, where one layer would leave a quote on each side.
\<close>

theorem strip_quotes_counterexample:
  "strip QUOTES [0x22, 0x27, 0x62, 0x22, 0x22] = [0x62] \<and>
   decode [0x22, 0x27, 0x62, 0x22, 0x22] = Inr [0x62] \<and>
   decode [0x22, 0x27, 0x62, 0x22, 0x22] \<noteq> Inr [0x27, 0x62, 0x22]"
  by (simp add: decode_eval tables_code)

text \<open>
  C8, amended. The first step of decode removes every leading and every trailing quote
  character, however many there are: the input is a run of quotes, the stripped text, and
  a run of quotes, and the stripped text neither begins nor ends with a quote. Quotes
  inside the stripped text stay in the blocks. decode of a text equals decode of its
  stripped form.
\<close>

theorem strip_quotes_all:
  "(\<exists>l r. t = l @ strip QUOTES t @ r \<and> set l \<subseteq> set QUOTES \<and> set r \<subseteq> set QUOTES) \<and>
   (strip QUOTES t = [] \<or>
      (hd (strip QUOTES t) \<notin> set QUOTES \<and> last (strip QUOTES t) \<notin> set QUOTES)) \<and>
   blocks_of t = raw_blocks (strip QUOTES t) \<and>
   decode t = decode (strip QUOTES t)"
  using strip_decomp[of t QUOTES] strip_ends[of QUOTES t]
  by (simp add: decode_eq blocks_of_def strip_idem)

theorem strip_quotes_all_witness:
  "strip QUOTES [0x22, 0x27, 0x62, 0x22, 0x61, 0x22, 0x22] = [0x62, 0x22, 0x61] \<and>
   decode [0x22, 0x27, 0x62, 0x22, 0x61, 0x22, 0x22] = decode [0x62, 0x22, 0x61] \<and>
   decode [0x62, 0x22, 0x61] = Inr [0x62, 0x22, 0x61]"
proof -
  have s: "strip QUOTES [0x22, 0x27, 0x62, 0x22, 0x61, 0x22, 0x22] = [0x62, 0x22, 0x61]"
    by (simp add: strip_def lstrip_def rstrip_def QUOTES_def)
  have d: "decode [0x62, 0x22, 0x61] = Inr [0x62, 0x22, 0x61]"
    by (simp add: decode_eval tables_code)
  from strip_quotes_all[of "[0x22, 0x27, 0x62, 0x22, 0x61, 0x22, 0x22]"] s d
  show ?thesis by simp
qed

text \<open>
  C9. For a syllabic character the three indices computed by encode lie within their
  tables (19, 21 and 28 entries) and the three list accesses succeed; for indices found
  in the three lookup tables the code point computed by decode lies in U+AC00 .. U+D7A3
  and the character construction succeeds; encode and decode never fail.
\<close>

theorem indices_in_range:
  "(syllabic c \<longrightarrow>
      0 \<le> (py_ord c - 44032) div 588 \<and> (py_ord c - 44032) div 588 < 19 \<and>
      0 \<le> ((py_ord c - 44032) mod 588) div 28 \<and> ((py_ord c - 44032) mod 588) div 28 < 21 \<and>
      0 \<le> (py_ord c - 44032) mod 28 \<and> (py_ord c - 44032) mod 28 < 28 \<and>
      getitem INITIALS ((py_ord c - 44032) div 588) = Inr (INITIALS ! onset_idx c) \<and>
      getitem MEDIALS (((py_ord c - 44032) mod 588) div 28) = Inr (MEDIALS ! nucleus_idx c) \<and>
      getitem FINALS ((py_ord c - 44032) mod 28) = Inr (FINALS ! coda_idx c)) \<and>
   length INITIALS = 19 \<and> length MEDIALS = 21 \<and> length FINALS = 28 \<and>
   (INITIAL_MAP p = Some oi \<and> MEDIAL_MAP v = Some ni \<and> FINAL_MAP s = Some ci \<longrightarrow>
      0xAC00 \<le> 44032 + oi * 588 + ni * 28 + ci \<and>
      44032 + oi * 588 + ni * 28 + ci \<le> 0xD7A3 \<and>
      (\<exists>ch. py_chr (44032 + oi * 588 + ni * 28 + ci) = Inr ch \<and> syllabic ch)) \<and>
   (\<exists>r. encode t = Inr r) \<and> (\<exists>r. decode t = Inr r)"
proof (intro conjI impI)
  assume c: "syllabic c"
  note b = index_bounds_nat[OF c]
  show "0 \<le> (py_ord c - 44032) div 588" "(py_ord c - 44032) div 588 < 19"
    "0 \<le> ((py_ord c - 44032) mod 588) div 28" "((py_ord c - 44032) mod 588) div 28 < 21"
    "0 \<le> (py_ord c - 44032) mod 28" "(py_ord c - 44032) mod 28 < 28"
    using b by (simp_all add: index_int[OF c])
  show "getitem INITIALS ((py_ord c - 44032) div 588) = Inr (INITIALS ! onset_idx c)"
    "getitem MEDIALS (((py_ord c - 44032) mod 588) div 28) = Inr (MEDIALS ! nucleus_idx c)"
    "getitem FINALS ((py_ord c - 44032) mod 28) = Inr (FINALS ! coda_idx c)"
    by (rule getitem_tables[OF c])+
next
  show "length INITIALS = 19" "length MEDIALS = 21" "length FINALS = 28"
    by (rule length_tables)+
next
  assume m: "INITIAL_MAP p = Some oi \<and> MEDIAL_MAP v = Some ni \<and> FINAL_MAP s = Some ci"
  then have b: "0 \<le> oi" "oi < 19" "0 \<le> ni" "ni < 21" "0 \<le> ci" "ci < 28"
    using INITIAL_MAP_Some[of p oi] MEDIAL_MAP_Some[of v ni] FINAL_MAP_Some[of s ci]
    by simp_all
  then show "0xAC00 \<le> 44032 + oi * 588 + ni * 28 + ci"
    "44032 + oi * 588 + ni * 28 + ci \<le> 0xD7A3" by simp_all
  have "syllabic (syllable_code (nat oi) (nat ni) (nat ci))"
    using b by (intro syllable_code_range) simp_all
  then show "\<exists>ch. py_chr (44032 + oi * 588 + ni * 28 + ci) = Inr ch \<and> syllabic ch"
    using py_chr_syllable[of oi ni ci] b by simp
next
  show "\<exists>r. encode t = Inr r" by (simp add: encode_eq)
  show "\<exists>r. decode t = Inr r" by (simp add: decode_eq)
qed

theorem indices_in_range_witness:
  "syllabic 0xD7A3 \<and> INITIAL_MAP [0x68] = Some 18 \<and> MEDIAL_MAP [0x69] = Some 20 \<and>
   FINAL_MAP [0x68] = Some 27 \<and>
   getitem INITIALS ((py_ord 0xD7A3 - 44032) div 588) = Inr [0x68] \<and>
   getitem MEDIALS (((py_ord 0xD7A3 - 44032) mod 588) div 28) = Inr [0x69] \<and>
   getitem FINALS ((py_ord 0xD7A3 - 44032) mod 28) = Inr [0x68] \<and>
   (\<exists>ch. py_chr (44032 + 18 * 588 + 20 * 28 + 27) = Inr ch \<and> syllabic ch)"
proof -
  have c: "syllabic 0xD7A3" by (simp add: syllabic_def)
  have m: "INITIAL_MAP [0x68] = Some 18" "MEDIAL_MAP [0x69] = Some 20"
    "FINAL_MAP [0x68] = Some 27"
    using INITIAL_MAP_nth[of 18] MEDIAL_MAP_nth[of 20] FINAL_MAP_nth[of 27]
    by (simp_all add: tables_code)
  have i: "INITIALS ! onset_idx 0xD7A3 = [0x68]" "MEDIALS ! nucleus_idx 0xD7A3 = [0x69]"
    "FINALS ! coda_idx 0xD7A3 = [0x68]"
    by (simp_all add: onset_idx_def nucleus_idx_def coda_idx_def tables_code)
  from indices_in_range[of "0xD7A3" "[0x68]" 18 "[0x69]" 20 "[0x68]" 27 "[]"] c m i
  show ?thesis by simp
qed

text \<open>
  C10. For every input, decode returns a string that does not contain the separator
  character.
\<close>

theorem decode_no_separator:
  "\<exists>r. decode t = Inr r \<and> 0x5C \<notin> set r \<and> SEPARATOR = [0x5C]"
  using blocks_of_sep_free[of t] block_output_sep_free
  by (auto simp: decode_eq SEPARATOR_def)

theorem decode_no_separator_witness:
  "decode [0x5C, 0x7A, 0x5C, 0x5C, 0x67, 0x61, 0x5C] = Inr [0x7A, 0xAC00] \<and>
   (\<exists>r. decode [0x5C, 0x7A, 0x5C, 0x5C, 0x67, 0x61, 0x5C] = Inr r \<and> 0x5C \<notin> set r)"
proof -
  have "decode [0x5C, 0x7A, 0x5C, 0x5C, 0x67, 0x61, 0x5C] = Inr [0x7A, 0xAC00]"
    by (simp add: decode_eval tables_code)
  with decode_no_separator[of "[0x5C, 0x7A, 0x5C, 0x5C, 0x67, 0x61, 0x5C]"]
  show ?thesis by simp
qed

end
